theory Spec2Isabelle
  imports Complex_Main "HOL-Library.Multiset"
begin

section \<open>Values, numbers and arrays\<close>

text \<open>
  The library extends the built-in \<^verbatim>\<open>Object\<close>, \<^verbatim>\<open>Map\<close>, \<^verbatim>\<open>Array\<close> and \<^verbatim>\<open>Iterator\<close>
  of JavaScript (src/src/index.ts). A value stored in an array or a map is \<^verbatim>\<open>undefined\<close>,
  \<^verbatim>\<open>null\<close> or a proper value. An index argument is a JavaScript number: a finite number
  (every finite double is a rational), NaN or one of the two infinities. An array is the
  list of its positions below \<^verbatim>\<open>length\<close>, each one a hole (never assigned) or an assigned
  item; own properties of an array other than its positions are not modelled.
\<close>

datatype 'a jsval = Undefined | Null | Val 'a

datatype number = Num rat | NaN | PosInfinity | NegInfinity

datatype 'a slot = Hole | Item "'a jsval"

type_synonym 'a array = "'a slot list"

datatype error = TypeError | RangeError | AssertionError

text \<open>\<^verbatim>\<open>Number.isInteger\<close>: a finite number without a fractional part.\<close>

fun isInteger :: "number \<Rightarrow> bool" where
  "isInteger (Num q) = (of_int \<lfloor>q\<rfloor> = q)"
| "isInteger NaN = False"
| "isInteger PosInfinity = False"
| "isInteger NegInfinity = False"

text \<open>The relational operators \<^verbatim>\<open><\<close> and \<^verbatim>\<open>>=\<close> on numbers; every comparison with NaN is false.\<close>

fun num_lt :: "number \<Rightarrow> number \<Rightarrow> bool" where
  "num_lt NaN _ = False"
| "num_lt _ NaN = False"
| "num_lt (Num a) (Num b) = (a < b)"
| "num_lt (Num a) PosInfinity = True"
| "num_lt (Num a) NegInfinity = False"
| "num_lt PosInfinity _ = False"
| "num_lt NegInfinity NegInfinity = False"
| "num_lt NegInfinity _ = True"

fun num_ge :: "number \<Rightarrow> number \<Rightarrow> bool" where
  "num_ge NaN _ = False"
| "num_ge _ NaN = False"
| "num_ge a b = (\<not> num_lt a b)"

definition num_gt :: "number \<Rightarrow> number \<Rightarrow> bool" where
  "num_gt a b = num_lt b a"

text \<open>The length of an array as a number, and the position an integral number denotes.\<close>

definition length_num :: "'a array \<Rightarrow> number" where
  "length_num a = Num (of_nat (length a))"

fun to_index :: "number \<Rightarrow> nat" where
  "to_index (Num q) = nat \<lfloor>q\<rfloor>"
| "to_index _ = 0"

text \<open>Reading a position, \<^verbatim>\<open>a[i]\<close>: a hole reads as \<^verbatim>\<open>undefined\<close>.\<close>

fun read_slot :: "'a slot \<Rightarrow> 'a jsval" where
  "read_slot Hole = Undefined"
| "read_slot (Item v) = v"

definition elems :: "'a array \<Rightarrow> 'a jsval list" where
  "elems a = map read_slot a"

text \<open>
  \<^verbatim>\<open>Array.prototype.splice(start, deleteCount, ...items)\<close> for a start that is a position
  (a natural number; a start beyond the length is clamped to it, as \<open>take\<close> and \<open>drop\<close> do):
  the removed positions, holes kept, and the array after the change.
\<close>

definition splice :: "'a array \<Rightarrow> nat \<Rightarrow> nat \<Rightarrow> 'a array \<Rightarrow> 'a array \<times> 'a array" where
  "splice a start deleteCount items =
     (take deleteCount (drop start a), take start a @ items @ drop (start + deleteCount) a)"

text \<open>\<^verbatim>\<open>Array.prototype.pop\<close>: the last position read (\<^verbatim>\<open>undefined\<close> on an empty array).\<close>

definition pop :: "'a array \<Rightarrow> 'a jsval" where
  "pop a = (case a of [] \<Rightarrow> Undefined | _ \<Rightarrow> read_slot (last a))"

text \<open>
  \<^verbatim>\<open>Array.prototype.filter\<close>: the callback runs on the assigned positions only, in order,
  and the result is a new dense array.
\<close>

fun filter_arr :: "('a jsval \<Rightarrow> bool) \<Rightarrow> 'a array \<Rightarrow> 'a array" where
  "filter_arr p [] = []"
| "filter_arr p (Hole # a) = filter_arr p a"
| "filter_arr p (Item v # a) = (if p v then Item v # filter_arr p a else filter_arr p a)"

section \<open>Object.get and Array.prototype.get\<close>

text \<open>
  \<^verbatim>\<open>Object.hasOwn(array, index)\<close>: the number is turned into a property key, which names
  a position exactly when the number is a non-negative integer; the position is an own
  property when it is below the length and not a hole.
\<close>

definition hasOwn :: "'a array \<Rightarrow> number \<Rightarrow> bool" where
  "hasOwn a key =
     (isInteger key \<and> num_ge key (Num 0) \<and> num_lt key (length_num a)
      \<and> a ! to_index key \<noteq> Hole)"

definition Object_get :: "'a array \<Rightarrow> number \<Rightarrow> 'a jsval option" where
  "Object_get obj key = (if hasOwn obj key then Some (read_slot (obj ! to_index key)) else None)"

definition get :: "'a array \<Rightarrow> number \<Rightarrow> error + 'a jsval option" where
  "get a index = Inr (Object_get a index)"

section \<open>Array.prototype.removeIndex and insert\<close>

text \<open>
  \<^verbatim>\<open>Option.from\<close> of the package \<^verbatim>\<open>@bodil/opt\<close> is not among the sources: it is a
  parameter of \<open>removeIndex\<close>. The array is changed in place: the result carries the
  array after the call.
\<close>

definition removeIndex ::
  "('a jsval \<Rightarrow> 'a jsval option) \<Rightarrow> 'a array \<Rightarrow> number \<Rightarrow> error + ('a jsval option \<times> 'a array)" where
  "removeIndex option_from a index =
     (if \<not> isInteger index then Inl TypeError
      else if num_lt index (Num 0) \<or> num_ge index (length_num a) then Inr (None, a)
      else (case splice a (to_index index) 1 [] of
              (removed, a') \<Rightarrow> Inr (option_from (pop removed), a')))"

definition insert_arr :: "'a array \<Rightarrow> 'a jsval \<Rightarrow> number \<Rightarrow> error + 'a array" where
  "insert_arr a v index =
     (if \<not> isInteger index then Inl TypeError
      else if num_gt index (length_num a) \<or> num_lt index (Num 0) then Inl RangeError
      else Inr (snd (splice a (to_index index) 0 [Item v])))"

section \<open>Array.prototype.present and nonNullable\<close>

definition present :: "'a array \<Rightarrow> 'a array" where
  "present a = filter_arr (\<lambda>v. v \<noteq> Undefined) a"

definition nonNullable :: "'a array \<Rightarrow> 'a array" where
  "nonNullable a = filter_arr (\<lambda>v. v \<noteq> Undefined) a"

text \<open>
  The sibling on iterators, \<^verbatim>\<open>Iterator.prototype.nonNullable\<close>, filters the items that
  upstream yields with \<^verbatim>\<open>item !== undefined && item !== null\<close>.
\<close>

definition iterator_nonNullable :: "'a jsval list \<Rightarrow> 'a jsval list" where
  "iterator_nonNullable iter = filter (\<lambda>item. item \<noteq> Undefined \<and> item \<noteq> Null) iter"

text \<open>The assigned items of an array, in order.\<close>

fun items :: "'a array \<Rightarrow> 'a jsval list" where
  "items [] = []"
| "items (Hole # a) = items a"
| "items (Item v # a) = v # items a"

section \<open>Map.prototype.getOrSet\<close>

text \<open>
  A \<^verbatim>\<open>Map\<close> is a partial function from keys to values; \<^verbatim>\<open>Map.prototype.get\<close> returns
  \<^verbatim>\<open>undefined\<close> for a key that is not present. The producer \<^verbatim>\<open>defaultValue\<close> is code of
  the caller and may have effects: it is a function from the state of its surroundings
  to its result and the state after the call, so that each call leaves its trace.
  \<open>getOrSet\<close> returns its result, the map after the call and the state after the call.
\<close>

definition map_get :: "('k \<rightharpoonup> 'v jsval) \<Rightarrow> 'k \<Rightarrow> 'v jsval" where
  "map_get m key = (case m key of None \<Rightarrow> Undefined | Some v \<Rightarrow> v)"

definition map_set :: "('k \<rightharpoonup> 'v jsval) \<Rightarrow> 'k \<Rightarrow> 'v jsval \<Rightarrow> ('k \<rightharpoonup> 'v jsval)" where
  "map_set m key v = m(key \<mapsto> v)"

definition getOrSet ::
  "('k \<rightharpoonup> 'v jsval) \<Rightarrow> 'k \<Rightarrow> ('s \<Rightarrow> 'v jsval \<times> 's) \<Rightarrow> 's
     \<Rightarrow> 'v jsval \<times> ('k \<rightharpoonup> 'v jsval) \<times> 's" where
  "getOrSet m key defaultValue s =
     (let result = map_get m key in
      if result \<noteq> Undefined then (result, m, s)
      else (case defaultValue s of
              (newValue, s') \<Rightarrow> (newValue, map_set m key newValue, s')))"

text \<open>A producer that counts its calls in the state.\<close>

definition counting_producer :: "'v jsval \<Rightarrow> nat \<Rightarrow> 'v jsval \<times> nat" where
  "counting_producer v calls = (v, Suc calls)"

section \<open>Iterator adapters\<close>

text \<open>
  The upstream iterator is its state: the items it has yet to yield. \<^verbatim>\<open>next()\<close> yields
  the first of them, and reports exhaustion from then on once there is none.
\<close>

datatype 'a iter_result = Done | Yield 'a

fun iter_next :: "'a list \<Rightarrow> 'a iter_result \<times> 'a list" where
  "iter_next [] = (Done, [])"
| "iter_next (x # xs) = (Yield x, xs)"

subsection \<open>takeWhile\<close>

text \<open>The state the closure captures: the upstream iterator, \<^verbatim>\<open>index\<close> and \<^verbatim>\<open>done\<close>.\<close>

record 'a takeWhile_state =
  tw_iter :: "'a list"
  tw_index :: nat
  tw_done :: bool

definition takeWhile_init :: "'a list \<Rightarrow> 'a takeWhile_state" where
  "takeWhile_init iter = \<lparr>tw_iter = iter, tw_index = 0, tw_done = False\<rparr>"

definition takeWhile_next ::
  "('a \<Rightarrow> nat \<Rightarrow> bool) \<Rightarrow> 'a takeWhile_state \<Rightarrow> 'a iter_result \<times> 'a takeWhile_state" where
  "takeWhile_next predicate st =
     (if \<not> tw_done st then
        (case iter_next (tw_iter st) of
           (Done, it) \<Rightarrow> (Done, st\<lparr>tw_iter := it\<rparr>)
         | (Yield v, it) \<Rightarrow>
             if predicate v (tw_index st)
             then (Yield v, st\<lparr>tw_iter := it, tw_index := Suc (tw_index st)\<rparr>)
             else (Done, st\<lparr>tw_iter := it, tw_index := Suc (tw_index st), tw_done := True\<rparr>))
      else (Done, st\<lparr>tw_done := True\<rparr>))"

lemma takeWhile_next_shrinks:
  "takeWhile_next predicate st = (Yield v, st') \<Longrightarrow> length (tw_iter st') < length (tw_iter st)"
  by (cases "tw_iter st") (auto simp: takeWhile_next_def split: if_splits)

text \<open>Driving the adapter to exhaustion: \<^verbatim>\<open>next()\<close> is called until it reports done.\<close>

function takeWhile_drain ::
  "('a \<Rightarrow> nat \<Rightarrow> bool) \<Rightarrow> 'a takeWhile_state \<Rightarrow> 'a list \<times> 'a takeWhile_state" where
  "takeWhile_drain predicate st =
     (case takeWhile_next predicate st of
        (Done, st') \<Rightarrow> ([], st')
      | (Yield v, st') \<Rightarrow>
          (case takeWhile_drain predicate st' of (ys, st'') \<Rightarrow> (v # ys, st'')))"
  by pat_completeness auto
termination takeWhile_drain
  by (relation "measure (\<lambda>(predicate, st). length (tw_iter st))")
    (auto dest: takeWhile_next_shrinks [OF sym])

declare takeWhile_drain.simps [simp del]

subsection \<open>skipWhile\<close>

record 'a skipWhile_state =
  sw_iter :: "'a list"
  sw_index :: nat
  sw_skipped :: bool

definition skipWhile_init :: "'a list \<Rightarrow> 'a skipWhile_state" where
  "skipWhile_init iter = \<lparr>sw_iter = iter, sw_index = 0, sw_skipped = False\<rparr>"

text \<open>The \<^verbatim>\<open>while (true)\<close> loop of \<^verbatim>\<open>next()\<close>, entered while nothing was yielded yet.\<close>

fun skipWhile_loop ::
  "('a \<Rightarrow> nat \<Rightarrow> bool) \<Rightarrow> 'a skipWhile_state \<Rightarrow> 'a list \<Rightarrow> 'a iter_result \<times> 'a skipWhile_state" where
  "skipWhile_loop predicate st [] = (Done, st\<lparr>sw_iter := []\<rparr>)"
| "skipWhile_loop predicate st (x # xs) =
     (if \<not> predicate x (sw_index st)
      then (Yield x, st\<lparr>sw_iter := xs, sw_index := Suc (sw_index st), sw_skipped := True\<rparr>)
      else skipWhile_loop predicate (st\<lparr>sw_iter := xs, sw_index := Suc (sw_index st)\<rparr>) xs)"

definition skipWhile_next ::
  "('a \<Rightarrow> nat \<Rightarrow> bool) \<Rightarrow> 'a skipWhile_state \<Rightarrow> 'a iter_result \<times> 'a skipWhile_state" where
  "skipWhile_next predicate st =
     (if sw_skipped st then
        (case iter_next (sw_iter st) of (result, it) \<Rightarrow> (result, st\<lparr>sw_iter := it\<rparr>))
      else skipWhile_loop predicate st (sw_iter st))"

lemma skipWhile_loop_shrinks:
  "skipWhile_loop predicate st xs = (Yield v, st') \<Longrightarrow> length (sw_iter st') < length xs"
  by (induction predicate st xs rule: skipWhile_loop.induct) (auto split: if_splits)

lemma skipWhile_next_shrinks:
  "skipWhile_next predicate st = (Yield v, st') \<Longrightarrow> length (sw_iter st') < length (sw_iter st)"
  by (cases "sw_iter st")
    (auto simp: skipWhile_next_def split: if_splits dest: skipWhile_loop_shrinks)

function skipWhile_drain ::
  "('a \<Rightarrow> nat \<Rightarrow> bool) \<Rightarrow> 'a skipWhile_state \<Rightarrow> 'a list \<times> 'a skipWhile_state" where
  "skipWhile_drain predicate st =
     (case skipWhile_next predicate st of
        (Done, st') \<Rightarrow> ([], st')
      | (Yield v, st') \<Rightarrow>
          (case skipWhile_drain predicate st' of (ys, st'') \<Rightarrow> (v # ys, st'')))"
  by pat_completeness auto
termination skipWhile_drain
  by (relation "measure (\<lambda>(predicate, st). length (sw_iter st))")
    (auto dest: skipWhile_next_shrinks [OF sym])

declare skipWhile_drain.simps [simp del]

subsection \<open>Reference notions for the adapters\<close>

text \<open>
  The number of leading items that the predicate accepts, the first of them passed with
  index \<open>i\<close> and each next one with the next index.
\<close>

fun accepted :: "('a \<Rightarrow> nat \<Rightarrow> bool) \<Rightarrow> nat \<Rightarrow> 'a list \<Rightarrow> nat" where
  "accepted p i [] = 0"
| "accepted p i (x # xs) = (if p x i then Suc (accepted p (Suc i) xs) else 0)"

text \<open>A predicate that holds of every item.\<close>

definition accept_all :: "int \<Rightarrow> nat \<Rightarrow> bool" where
  "accept_all v i = True"

subsection \<open>partition\<close>

text \<open>
  The state the closure captures: the upstream iterator and \<^verbatim>\<open>done\<close>. The size argument
  is a number; the adapters that take a size are modelled for integral sizes, of either
  sign.
\<close>

record 'a partition_state =
  pt_iter :: "'a list"
  pt_done :: bool

definition partition_init :: "'a list \<Rightarrow> 'a partition_state" where
  "partition_init iter = \<lparr>pt_iter = iter, pt_done = False\<rparr>"

text \<open>The \<^verbatim>\<open>while (true)\<close> loop of \<^verbatim>\<open>next()\<close>, with the group \<^verbatim>\<open>part\<close> collected so far.\<close>

fun partition_loop ::
  "int \<Rightarrow> 'a partition_state \<Rightarrow> 'a list \<Rightarrow> 'a list \<Rightarrow> 'a list iter_result \<times> 'a partition_state" where
  "partition_loop sz st part [] =
     (if length part > 0 then Yield part else Done, st\<lparr>pt_iter := [], pt_done := True\<rparr>)"
| "partition_loop sz st part (x # xs) =
     (let part' = part @ [x] in
      if int (length part') = sz then (Yield part', st\<lparr>pt_iter := xs\<rparr>)
      else partition_loop sz st part' xs)"

definition partition_next ::
  "int \<Rightarrow> 'a partition_state \<Rightarrow> 'a list iter_result \<times> 'a partition_state" where
  "partition_next sz st =
     (if pt_done st then (Done, st) else partition_loop sz st [] (pt_iter st))"

lemma partition_loop_shrinks:
  "partition_loop sz st part xs = (Yield g, st') \<Longrightarrow>
     length (pt_iter st') \<le> length xs \<and> (xs \<noteq> [] \<longrightarrow> length (pt_iter st') < length xs)"
proof (induction sz st part xs rule: partition_loop.induct)
  case (1 sz st part)
  then show ?case by (auto split: if_splits)
next
  case (2 sz st part x xs)
  then show ?case by (fastforce simp: Let_def split: if_splits)
qed

lemma partition_next_shrinks:
  "partition_next sz st = (Yield g, st') \<Longrightarrow> length (pt_iter st') < length (pt_iter st)"
proof -
  assume a: "partition_next sz st = (Yield g, st')"
  then have l: "partition_loop sz st [] (pt_iter st) = (Yield g, st')"
    by (auto simp: partition_next_def split: if_splits)
  then have "pt_iter st \<noteq> []" by (cases "pt_iter st") auto
  with partition_loop_shrinks [OF l] show ?thesis by simp
qed

function partition_drain ::
  "int \<Rightarrow> 'a partition_state \<Rightarrow> 'a list list \<times> 'a partition_state" where
  "partition_drain sz st =
     (case partition_next sz st of
        (Done, st') \<Rightarrow> ([], st')
      | (Yield g, st') \<Rightarrow>
          (case partition_drain sz st' of (gs, st'') \<Rightarrow> (g # gs, st'')))"
  by pat_completeness auto
termination partition_drain
  by (relation "measure (\<lambda>(sz, st). length (pt_iter st))")
    (auto dest: partition_next_shrinks [OF sym])

declare partition_drain.simps [simp del]

subsection \<open>frontBiasedPartition\<close>

text \<open>
  The remainder operator \<^verbatim>\<open>%\<close> on integral numbers: NaN (here \<open>None\<close>) for a zero divisor,
  and otherwise the remainder of the absolute values with the sign of the dividend.
\<close>

definition js_rem :: "int \<Rightarrow> int \<Rightarrow> int option" where
  "js_rem a b = (if b = 0 then None else Some (sgn a * (\<bar>a\<bar> mod \<bar>b\<bar>)))"

text \<open>\<^verbatim>\<open>firstLength > 0\<close>, false for NaN.\<close>

definition positive :: "int option \<Rightarrow> bool" where
  "positive r = (case r of None \<Rightarrow> False | Some k \<Rightarrow> k > 0)"

text \<open>
  \<^verbatim>\<open>Array.prototype.slice(start, end)\<close> for integral arguments: a negative argument counts
  from the end, and both are clamped to the array.
\<close>

definition slice :: "'a list \<Rightarrow> int \<Rightarrow> int \<Rightarrow> 'a list" where
  "slice a start fin =
     (let len = int (length a);
          k = (if start < 0 then max (len + start) 0 else min start len);
          final = (if fin < 0 then max (len + fin) 0 else min fin len)
      in take (nat (final - k)) (drop (nat k) a))"

text \<open>
  The \<^verbatim>\<open>while (inputPos < input.length)\<close> loop, which does not end when the size does not
  move the position forward: not returning is the value \<open>None\<close>. It returns the position
  and the output it ends with.
\<close>

partial_function (option) frontBiasedPartition_loop ::
  "int \<Rightarrow> 'a list \<Rightarrow> int \<Rightarrow> 'a list list \<Rightarrow> (int \<times> 'a list list) option" where
  "frontBiasedPartition_loop sz input inputPos output =
     (if inputPos < int (length input)
      then frontBiasedPartition_loop sz input (inputPos + sz)
             (output @ [slice input inputPos (inputPos + sz)])
      else Some (inputPos, output))"

declare frontBiasedPartition_loop.simps [code]

text \<open>
  \<^verbatim>\<open>this.toArray()\<close> reads all the items of the upstream iterator. \<^verbatim>\<open>assert\<close> of
  \<^verbatim>\<open>@bodil/core/assert\<close> is not among the sources: a failed assertion is taken to raise.
\<close>

definition frontBiasedPartition :: "int \<Rightarrow> 'a list \<Rightarrow> (error + 'a list list) option" where
  "frontBiasedPartition sz iter =
     (let input = iter;
          firstLength = js_rem (int (length input)) sz;
          (output, inputPos) =
             (if positive firstLength
              then ([slice input 0 (the firstLength)], the firstLength)
              else ([], 0))
      in case frontBiasedPartition_loop sz input inputPos output of
           None \<Rightarrow> None
         | Some (inputPos', output') \<Rightarrow>
             Some (if inputPos' = int (length input) then Inr output' else Inl AssertionError))"

text \<open>
  The groups of \<open>n\<close> items each that a list splits into from its front, the last one
  shorter when the items run out.
\<close>

function chunks :: "nat \<Rightarrow> 'a list \<Rightarrow> 'a list list" where
  "chunks n xs = (if n = 0 \<or> xs = [] then [] else take n xs # chunks n (drop n xs))"
  by pat_completeness auto
termination chunks
  by (relation "measure (\<lambda>(n, xs). length xs)") auto

declare chunks.simps [simp del]

section \<open>Array.prototype.insertOrdered\<close>

text \<open>
  Modelled from the spec: the result type of an ordering function (\<^verbatim>\<open>OrderFn\<close> of
  \<^verbatim>\<open>@bodil/core/order\<close>, not among the sources), which the spec gives as less, equal or
  greater. The two bisection functions \<^verbatim>\<open>bisectLow\<close> and \<^verbatim>\<open>bisectHigh\<close> of the same
  package are parameters of \<open>insertOrdered\<close>; they receive the ordering function, the array
  and the value, and return a number. The \<^verbatim>\<open>duplicates\<close> argument is optional.
\<close>

datatype ordering = Less | Equal | Greater

datatype duplicates = Low | High

type_synonym 'a orderFn = "'a jsval \<Rightarrow> 'a jsval \<Rightarrow> ordering"

type_synonym 'a bisectFn = "'a orderFn \<Rightarrow> 'a array \<Rightarrow> 'a jsval \<Rightarrow> number"

definition insertOrdered ::
  "'a bisectFn \<Rightarrow> 'a bisectFn \<Rightarrow> 'a array \<Rightarrow> 'a jsval \<Rightarrow> 'a orderFn \<Rightarrow> duplicates option
     \<Rightarrow> error + 'a array" where
  "insertOrdered bisectLow bisectHigh a v cmp dup =
     (let duplicates = (case dup of None \<Rightarrow> High | Some d \<Rightarrow> d) in
      insert_arr a v ((if duplicates = Low then bisectLow else bisectHigh) cmp a v))"

subsection \<open>The contract of the ordering and bisection functions\<close>

text \<open>
  A list is sorted by \<open>cmp\<close> when no element is greater than a later one. \<open>cmp\<close> is a total
  order on the values of a list when, on them, every value equals itself, swapping the
  arguments swaps less and greater and keeps equal, and not-greater is transitive.
\<close>

definition sorted_by :: "'a orderFn \<Rightarrow> 'a jsval list \<Rightarrow> bool" where
  "sorted_by cmp xs = sorted_wrt (\<lambda>x y. cmp x y \<noteq> Greater) xs"

definition total_order_on :: "'a orderFn \<Rightarrow> 'a jsval list \<Rightarrow> bool" where
  "total_order_on cmp ys =
     (list_all (\<lambda>x. cmp x x = Equal) ys
      \<and> list_all (\<lambda>x. list_all (\<lambda>y.
            (cmp x y = Less) = (cmp y x = Greater) \<and> (cmp x y = Equal) = (cmp y x = Equal)) ys) ys
      \<and> list_all (\<lambda>x. list_all (\<lambda>y. list_all (\<lambda>z.
            cmp x y \<noteq> Greater \<and> cmp y z \<noteq> Greater \<longrightarrow> cmp x z \<noteq> Greater) ys) ys) ys)"

text \<open>
  Modelled from the spec: what \<^verbatim>\<open>bisectLow\<close> and \<^verbatim>\<open>bisectHigh\<close> return, "the leftmost/rightmost
  valid insertion index for the value under \<open>cmp\<close>". An index is a valid insertion index
  for \<open>v\<close> when no element before it is greater than \<open>v\<close> and \<open>v\<close> is greater than no element
  from it on.
\<close>

definition insertion_index :: "'a orderFn \<Rightarrow> 'a jsval list \<Rightarrow> 'a jsval \<Rightarrow> nat \<Rightarrow> bool" where
  "insertion_index cmp xs v i =
     (i \<le> length xs
      \<and> list_all (\<lambda>x. cmp x v \<noteq> Greater) (take i xs)
      \<and> list_all (\<lambda>x. cmp v x \<noteq> Greater) (drop i xs))"

definition leftmost_index :: "'a orderFn \<Rightarrow> 'a jsval list \<Rightarrow> 'a jsval \<Rightarrow> nat \<Rightarrow> bool" where
  "leftmost_index cmp xs v i =
     (insertion_index cmp xs v i \<and> list_all (\<lambda>j. \<not> insertion_index cmp xs v j) [0..<i])"

definition rightmost_index :: "'a orderFn \<Rightarrow> 'a jsval list \<Rightarrow> 'a jsval \<Rightarrow> nat \<Rightarrow> bool" where
  "rightmost_index cmp xs v i =
     (insertion_index cmp xs v i
      \<and> list_all (\<lambda>j. \<not> insertion_index cmp xs v j) [Suc i..<Suc (length xs)])"

definition bisectLow_contract :: "'a bisectFn \<Rightarrow> 'a orderFn \<Rightarrow> 'a array \<Rightarrow> 'a jsval \<Rightarrow> bool" where
  "bisectLow_contract bisectLow cmp a v =
     (isInteger (bisectLow cmp a v) \<and> num_ge (bisectLow cmp a v) (Num 0)
      \<and> leftmost_index cmp (elems a) v (to_index (bisectLow cmp a v)))"

definition bisectHigh_contract :: "'a bisectFn \<Rightarrow> 'a orderFn \<Rightarrow> 'a array \<Rightarrow> 'a jsval \<Rightarrow> bool" where
  "bisectHigh_contract bisectHigh cmp a v =
     (isInteger (bisectHigh cmp a v) \<and> num_ge (bisectHigh cmp a v) (Num 0)
      \<and> rightmost_index cmp (elems a) v (to_index (bisectHigh cmp a v)))"

text \<open>
  The positions of the first and of the last element equal to \<open>v\<close> under \<open>cmp\<close>.
\<close>

definition first_equal :: "'a orderFn \<Rightarrow> 'a jsval list \<Rightarrow> 'a jsval \<Rightarrow> nat \<Rightarrow> bool" where
  "first_equal cmp xs v f =
     (f < length xs \<and> cmp (xs ! f) v = Equal \<and> list_all (\<lambda>x. cmp x v \<noteq> Equal) (take f xs))"

definition last_equal :: "'a orderFn \<Rightarrow> 'a jsval list \<Rightarrow> 'a jsval \<Rightarrow> nat \<Rightarrow> bool" where
  "last_equal cmp xs v l =
     (l < length xs \<and> cmp (xs ! l) v = Equal
      \<and> list_all (\<lambda>x. cmp x v \<noteq> Equal) (drop (Suc l) xs))"

subsection \<open>An ordering and bisections for the examples\<close>

text \<open>
  The ascending order of the integer keys of labelled values, \<^verbatim>\<open>undefined\<close> and \<^verbatim>\<open>null\<close>
  after them; and the two insertion indices found by a scan from the left.
\<close>

fun key_ascending :: "(int \<times> string) jsval \<Rightarrow> (int \<times> string) jsval \<Rightarrow> ordering" where
  "key_ascending (Val x) (Val y) =
     (if fst x < fst y then Less else if fst x = fst y then Equal else Greater)"
| "key_ascending (Val x) _ = Less"
| "key_ascending _ (Val y) = Greater"
| "key_ascending _ _ = Equal"

definition scan_bisectLow :: "'a bisectFn" where
  "scan_bisectLow cmp a v = Num (of_nat (length (takeWhile (\<lambda>x. cmp x v = Less) (elems a))))"

definition scan_bisectHigh :: "'a bisectFn" where
  "scan_bisectHigh cmp a v = Num (of_nat (length (takeWhile (\<lambda>x. cmp x v \<noteq> Greater) (elems a))))"

section \<open>Theorems\<close>

lemma filter_arr_items: "filter_arr p a = map Item (filter p (items a))"
  by (induction p a rule: filter_arr.induct) simp_all

text \<open>
  C7 (code defect). The claim: \<open>nonNullable\<close> returns the elements that are neither
  \<^verbatim>\<open>undefined\<close> nor \<^verbatim>\<open>null\<close>. The callback of the array method tests
  \<^verbatim>\<open>value !== undefined\<close> only, so a \<^verbatim>\<open>null\<close> element stays: on \<^verbatim>\<open>[1, null, 2]\<close> the
  result is \<^verbatim>\<open>[1, null, 2]\<close>, not \<^verbatim>\<open>[1, 2]\<close>.
\<close>

theorem nonNullable_keeps_null:
  "nonNullable [Item (Val (1::int)), Item Null, Item (Val 2)]
     = [Item (Val 1), Item Null, Item (Val 2)]"
  by (simp add: nonNullable_def)

text \<open>On the same items the iterator method drops the \<^verbatim>\<open>null\<close>.\<close>

lemma iterator_nonNullable_drops_null:
  "iterator_nonNullable [Val (1::int), Null, Val 2] = [Val 1, Val 2]"
  by (simp add: iterator_nonNullable_def)

text \<open>
  C10. For every array, \<open>present\<close> and \<open>nonNullable\<close> return the same array: the assigned
  items other than \<^verbatim>\<open>undefined\<close>, in their order.
\<close>

theorem present_eq_nonNullable:
  "present a = nonNullable a
   \<and> nonNullable a = map Item (filter (\<lambda>v. v \<noteq> Undefined) (items a))"
  by (simp add: present_def nonNullable_def filter_arr_items)

subsection \<open>Checked reads and removal by index\<close>

lemma isInteger_iff: "isInteger i = (\<exists>k. i = Num (of_int k))"
  by (cases i) (auto intro: exI[of _ "\<lfloor>_\<rfloor>"])

lemma hasOwn_iff:
  "hasOwn a index = (\<exists>n. n < length a \<and> index = Num (of_nat n) \<and> a ! n \<noteq> Hole)"
proof (cases index)
  case (Num q)
  show ?thesis
  proof
    assume h: "hasOwn a index"
    then have i: "of_int \<lfloor>q\<rfloor> = q" and nn: "0 \<le> q" and lt: "q < of_nat (length a)"
      and nh: "a ! nat \<lfloor>q\<rfloor> \<noteq> Hole"
      using Num by (auto simp: hasOwn_def length_num_def)
    have "q = of_nat (nat \<lfloor>q\<rfloor>)" using i nn
      by (metis floor_of_int of_int_of_nat_eq of_nat_nat zero_le_floor)
    moreover have "nat \<lfloor>q\<rfloor> < length a" using lt nn by (simp add: floor_less_iff nat_less_iff)
    ultimately show "\<exists>n. n < length a \<and> index = Num (of_nat n) \<and> a ! n \<noteq> Hole"
      using nh Num by blast
  next
    assume "\<exists>n. n < length a \<and> index = Num (of_nat n) \<and> a ! n \<noteq> Hole"
    then show "hasOwn a index" by (auto simp: hasOwn_def length_num_def)
  qed
qed (auto simp: hasOwn_def)

lemma not_isInteger_three_halves: "\<not> isInteger (Num (3 / 2))"
  by code_simp

lemma get_out_of_range: "k < 0 \<or> int (length a) \<le> k \<Longrightarrow> get a (Num (of_int k)) = Inr None"
proof -
  assume r: "k < 0 \<or> int (length a) \<le> k"
  have "\<not> hasOwn a (Num (of_int k))"
  proof
    assume "hasOwn a (Num (of_int k))"
    then obtain n where "n < length a" and "(of_int k :: rat) = of_nat n"
      unfolding hasOwn_iff by auto
    then have "n < length a" and "k = int n"
      by (simp_all add: of_int_eq_iff [symmetric, where ?'a = rat] del: of_int_eq_iff)
    with r show False by auto
  qed
  then show ?thesis by (simp add: get_def Object_get_def)
qed

lemma get_non_integer: "\<not> isInteger index \<Longrightarrow> get a index = Inr None"
  by (simp add: get_def Object_get_def hasOwn_def)

lemma num_lt_zero_int: "num_lt (Num (of_int k)) (Num 0) = (k < 0)"
  by simp

lemma num_ge_length_int: "num_ge (Num (of_int k)) (length_num a) = (int (length a) \<le> k)"
proof -
  have "((of_nat (length a) :: rat) \<le> of_int k) = (int (length a) \<le> k)"
    by (metis of_int_le_iff of_int_of_nat_eq)
  then show ?thesis by (simp add: length_num_def not_less)
qed

lemma isInteger_of_int: "isInteger (Num (of_int k))"
  by simp

lemma removeIndex_out_of_range:
  "k < 0 \<or> int (length a) \<le> k \<Longrightarrow> removeIndex option_from a (Num (of_int k)) = Inr (None, a)"
  unfolding removeIndex_def num_lt_zero_int num_ge_length_int
  by (simp only: isInteger_of_int not_True_eq_False if_False if_True)

lemma removeIndex_non_integer:
  "\<not> isInteger index \<Longrightarrow> removeIndex option_from a index = Inl TypeError"
  by (simp add: removeIndex_def)

text \<open>
  C8 (amended). For an integer index outside \<open>[0, length)\<close>, \<open>removeIndex\<close> and \<open>get\<close> do not
  raise: \<open>removeIndex\<close> returns Absent and leaves the array as it is, \<open>get\<close> returns Absent.
  For an index that is not an integer, \<open>removeIndex\<close> raises TypeError, and \<open>get\<close> does
  not raise: it returns Absent.
\<close>

theorem removeIndex_get_index_errors:
  "((k < 0 \<or> int (length a) \<le> k) \<longrightarrow>
      removeIndex option_from a (Num (of_int k)) = Inr (None, a)
      \<and> get a (Num (of_int k)) = Inr None)
   \<and> (\<not> isInteger index \<longrightarrow>
      removeIndex option_from b index = Inl TypeError \<and> get b index = Inr None)"
  by (simp add: removeIndex_out_of_range get_out_of_range get_non_integer
      removeIndex_non_integer)

theorem removeIndex_get_index_errors_witness:
  "removeIndex (\<lambda>v. if v = Undefined then None else Some v)
      [Item (Val (4::int)), Hole] (Num 2) = Inr (None, [Item (Val 4), Hole])
   \<and> get [Item (Val (4::int)), Hole] (Num 2) = Inr None
   \<and> removeIndex (\<lambda>v. if v = Undefined then None else Some v)
      [Item (Val (4::int)), Hole] (Num (3 / 2)) = Inl TypeError
   \<and> get [Item (Val (4::int)), Hole] (Num (3 / 2)) = Inr None"
  using removeIndex_get_index_errors [of 2 "[Item (Val (4::int)), Hole]"
      "\<lambda>v. if v = Undefined then None else Some v" "Num (3 / 2)" "[Item (Val (4::int)), Hole]"]
    not_isInteger_three_halves
  by simp

text \<open>
  The claim as stated fails for \<open>get\<close>: at the non-integer index \<open>3/2\<close> (and at NaN) it
  returns Absent and raises nothing.
\<close>

theorem get_non_integer_counterexample:
  "\<not> isInteger (Num (3 / 2)) \<and> get [Item (Val (4::int))] (Num (3 / 2)) = Inr None
   \<and> \<not> isInteger NaN \<and> get [Item (Val (4::int))] NaN = Inr None"
  using not_isInteger_three_halves
  by (simp add: get_non_integer)

text \<open>
  C9. For every array and every number, \<open>get\<close> does not raise; it returns \<open>Present v\<close>
  exactly when the number is a position below the length that holds the assigned item
  \<open>v\<close>, and Absent exactly when it is no assigned position.
\<close>

theorem get_total:
  "(\<exists>r. get a index = Inr r)
   \<and> (get a index = Inr (Some v)) = (\<exists>n. n < length a \<and> index = Num (of_nat n) \<and> a ! n = Item v)
   \<and> (get a index = Inr None)
       = (\<not> (\<exists>n w. n < length a \<and> index = Num (of_nat n) \<and> a ! n = Item w))"
proof -
  have 1: "(get a index = Inr (Some v))
      = (\<exists>n. n < length a \<and> index = Num (of_nat n) \<and> a ! n = Item v)"
  proof
    assume "get a index = Inr (Some v)"
    then have h: "hasOwn a index" and r: "read_slot (a ! to_index index) = v"
      by (auto simp: get_def Object_get_def split: if_splits)
    from h obtain n where n: "n < length a" "index = Num (of_nat n)" "a ! n \<noteq> Hole"
      unfolding hasOwn_iff by blast
    with r have "a ! n = Item v" by (cases "a ! n") auto
    with n show "\<exists>n. n < length a \<and> index = Num (of_nat n) \<and> a ! n = Item v" by blast
  next
    assume "\<exists>n. n < length a \<and> index = Num (of_nat n) \<and> a ! n = Item v"
    then obtain n where n: "n < length a" "index = Num (of_nat n)" "a ! n = Item v" by blast
    then have "hasOwn a index" unfolding hasOwn_iff by auto
    with n show "get a index = Inr (Some v)" by (simp add: get_def Object_get_def)
  qed
  have 2: "(get a index = Inr None)
      = (\<not> (\<exists>n w. n < length a \<and> index = Num (of_nat n) \<and> a ! n = Item w))"
  proof -
    have "(get a index = Inr None) = (\<not> hasOwn a index)"
      by (simp add: get_def Object_get_def)
    also have "\<dots> = (\<not> (\<exists>n w. n < length a \<and> index = Num (of_nat n) \<and> a ! n = Item w))"
      unfolding hasOwn_iff by (metis slot.exhaust slot.distinct(1))
    finally show ?thesis .
  qed
  show ?thesis using 1 2 by (simp add: get_def)
qed

subsection \<open>getOrSet\<close>

text \<open>
  C6 (amended). When the key is present with a value other than \<^verbatim>\<open>undefined\<close>, \<open>getOrSet\<close>
  does not invoke the producer (the state of its surroundings is untouched), returns the
  stored value and leaves the map as it is. When the key is absent it invokes the
  producer exactly once (the state is the one after a single call), stores the result
  under the key and returns it.
\<close>

theorem getOrSet_present_or_absent:
  "(m key = Some v \<and> v \<noteq> Undefined \<longrightarrow> getOrSet m key defaultValue s = (v, m, s))
   \<and> (m key = None \<longrightarrow>
        getOrSet m key defaultValue s
          = (fst (defaultValue s), m(key \<mapsto> fst (defaultValue s)), snd (defaultValue s)))"
  by (auto simp: getOrSet_def map_get_def map_set_def split: prod.splits)

theorem getOrSet_present_or_absent_witness:
  "getOrSet [''foo'' \<mapsto> Val (1::int)] ''foo'' (counting_producer (Val 2)) 0
      = (Val 1, [''foo'' \<mapsto> Val 1], 0)
   \<and> getOrSet [''foo'' \<mapsto> Val (1::int)] ''bar'' (counting_producer (Val 2)) 0
      = (Val 2, [''foo'' \<mapsto> Val 1, ''bar'' \<mapsto> Val 2], Suc 0)"
  using getOrSet_present_or_absent [of "[''foo'' \<mapsto> Val (1::int)]" "''foo''" "Val 1"
      "counting_producer (Val 2)" 0]
    getOrSet_present_or_absent [of "[''foo'' \<mapsto> Val (1::int)]" "''bar''" "Val 1"
      "counting_producer (Val 2)" 0]
  by (simp add: counting_producer_def)

text \<open>
  The claim as stated fails where the key is present and holds \<^verbatim>\<open>undefined\<close>: the
  producer is invoked (one call is counted), and its result replaces the stored value.
\<close>

theorem getOrSet_undefined_counterexample:
  "[''foo'' \<mapsto> (Undefined :: int jsval)] ''foo'' = Some Undefined
   \<and> getOrSet [''foo'' \<mapsto> Undefined] ''foo'' (counting_producer (Val (2::int))) 0
      = (Val 2, [''foo'' \<mapsto> Val 2], Suc 0)"
  by (simp add: getOrSet_def map_get_def map_set_def counting_producer_def)

subsection \<open>takeWhile and skipWhile\<close>

lemma accepted_le: "accepted p i xs \<le> length xs"
  by (induction xs arbitrary: i) auto

lemma accepted_less_iff:
  "(accepted p i xs < length xs) = (\<exists>j<length xs. \<not> p (xs ! j) (i + j))"
proof (induction xs arbitrary: i)
  case Nil
  then show ?case by simp
next
  case (Cons x xs)
  show ?case
  proof (cases "p x i")
    case True
    have "(\<exists>j<length (x # xs). \<not> p ((x # xs) ! j) (i + j))
        = (\<exists>j<length xs. \<not> p (xs ! j) (Suc i + j))"
      using True by (auto simp: less_Suc_eq_0_disj)
    then show ?thesis using True Cons.IH [of "Suc i"] by simp
  next
    case False
    then show ?thesis by auto
  qed
qed

lemma takeWhile_drain_eq:
  "takeWhile_drain p \<lparr>tw_iter = xs, tw_index = i, tw_done = False\<rparr>
     = (take (accepted p i xs) xs,
        \<lparr>tw_iter = drop (Suc (accepted p i xs)) xs,
         tw_index = i + min (Suc (accepted p i xs)) (length xs),
         tw_done = (accepted p i xs < length xs)\<rparr>)"
proof (induction xs arbitrary: i)
  case Nil
  show ?case by (subst takeWhile_drain.simps) (simp add: takeWhile_next_def)
next
  case (Cons x xs)
  show ?case
    by (subst takeWhile_drain.simps) (simp add: takeWhile_next_def Cons.IH)
qed

lemma skipWhile_drain_skipped:
  "skipWhile_drain p \<lparr>sw_iter = xs, sw_index = i, sw_skipped = True\<rparr>
     = (xs, \<lparr>sw_iter = [], sw_index = i, sw_skipped = True\<rparr>)"
proof (induction xs)
  case Nil
  show ?case by (subst skipWhile_drain.simps) (simp add: skipWhile_next_def)
next
  case (Cons x xs)
  show ?case by (subst skipWhile_drain.simps) (simp add: skipWhile_next_def Cons.IH)
qed

lemma skipWhile_loop_eq:
  "skipWhile_loop p st xs =
     (if accepted p (sw_index st) xs < length xs
      then (Yield (xs ! accepted p (sw_index st) xs),
            \<lparr>sw_iter = drop (Suc (accepted p (sw_index st) xs)) xs,
             sw_index = sw_index st + Suc (accepted p (sw_index st) xs),
             sw_skipped = True\<rparr>)
      else (Done, \<lparr>sw_iter = [], sw_index = sw_index st + accepted p (sw_index st) xs,
             sw_skipped = sw_skipped st\<rparr>))"
  by (induction p st xs rule: skipWhile_loop.induct) auto

lemma skipWhile_drain_eq:
  "skipWhile_drain p (skipWhile_init xs)
     = (drop (accepted p 0 xs) xs,
        \<lparr>sw_iter = [],
         sw_index = min (Suc (accepted p 0 xs)) (length xs),
         sw_skipped = (accepted p 0 xs < length xs)\<rparr>)"
proof (cases "accepted p 0 xs < length xs")
  case True
  then show ?thesis
    by (subst skipWhile_drain.simps)
      (simp add: skipWhile_next_def skipWhile_init_def skipWhile_loop_eq skipWhile_drain_skipped
        Cons_nth_drop_Suc min_def)
next
  case False
  then have "accepted p 0 xs = length xs" using accepted_le [of p 0 xs] by simp
  then show ?thesis
    by (subst skipWhile_drain.simps)
      (simp add: skipWhile_next_def skipWhile_init_def skipWhile_loop_eq)
qed

text \<open>
  C5 (amended). Over the upstream items \<open>xs\<close>, driven to exhaustion: the number of items
  \<open>takeWhile\<close> consumed equals the number it yielded, plus one exactly when it ended on an
  item that the predicate rejected (\<^verbatim>\<open>done\<close> is set; that is the case exactly when the
  predicate rejects some item at its position), and what it yielded are the leading
  accepted items. The number of items \<open>skipWhile\<close> consumed equals the number it yielded
  plus the number of leading items it discarded, those the predicate accepted; what it
  yielded are all the items after them.
\<close>

theorem takeWhile_skipWhile_consumed:
  "length xs - length (tw_iter (snd (takeWhile_drain p (takeWhile_init xs))))
     = length (fst (takeWhile_drain p (takeWhile_init xs)))
       + (if tw_done (snd (takeWhile_drain p (takeWhile_init xs))) then 1 else 0)
   \<and> tw_done (snd (takeWhile_drain p (takeWhile_init xs)))
     = (\<exists>j. j < length xs \<and> \<not> p (xs ! j) j)
   \<and> fst (takeWhile_drain p (takeWhile_init xs)) = take (accepted p 0 xs) xs
   \<and> length xs - length (sw_iter (snd (skipWhile_drain p (skipWhile_init xs))))
     = length (fst (skipWhile_drain p (skipWhile_init xs))) + accepted p 0 xs
   \<and> fst (skipWhile_drain p (skipWhile_init xs)) = drop (accepted p 0 xs) xs"
  using accepted_le [of p 0 xs] accepted_less_iff [of p 0 xs]
  by (auto simp: takeWhile_init_def takeWhile_drain_eq skipWhile_drain_eq min_def)

text \<open>
  The claim as stated fails for \<open>skipWhile\<close>: over the single item \<open>1\<close> with a predicate that
  accepts everything, it consumes one item and yields none.
\<close>

theorem skipWhile_consumed_counterexample:
  "length [1::int] - length (sw_iter (snd (skipWhile_drain accept_all (skipWhile_init [1::int]))))
     = 1
   \<and> length (fst (skipWhile_drain accept_all (skipWhile_init [1::int]))) = 0"
  by (simp add: skipWhile_drain_eq accept_all_def)

subsection \<open>partition and frontBiasedPartition\<close>

lemma chunks_Nil [simp]: "chunks n [] = []"
  by (simp add: chunks.simps)

lemma chunks_step: "0 < n \<Longrightarrow> xs \<noteq> [] \<Longrightarrow> chunks n xs = take n xs # chunks n (drop n xs)"
  by (subst chunks.simps) simp

lemma concat_chunks: "0 < n \<Longrightarrow> concat (chunks n xs) = xs"
proof (induction n xs rule: chunks.induct)
  case (1 n xs)
  then show ?case by (cases "xs = []") (simp_all add: chunks_step)
qed

lemma chunks_nonempty: "0 < n \<Longrightarrow> g \<in> set (chunks n xs) \<Longrightarrow> g \<noteq> []"
proof (induction n xs rule: chunks.induct)
  case (1 n xs)
  then show ?case by (cases "xs = []") (auto simp: chunks_step)
qed

lemma map_length_chunks:
  "0 < n \<Longrightarrow> map length (chunks n xs)
     = replicate (length xs div n) n @ (if length xs mod n = 0 then [] else [length xs mod n])"
proof (induction n xs rule: chunks.induct)
  case (1 n xs)
  show ?case
  proof (cases "xs = []")
    case True
    then show ?thesis by simp
  next
    case False
    note ne = this
    show ?thesis
    proof (cases "n \<le> length xs")
      case True
      then have d: "length xs div n = Suc ((length xs - n) div n)"
        and m: "length xs mod n = (length xs - n) mod n"
        using \<open>0 < n\<close> by (simp_all add: le_div_geq le_mod_geq)
      show ?thesis using 1 ne True by (simp add: chunks_step d m min_def)
    next
      case False
      then show ?thesis using 1 ne by (simp add: chunks_step min_def)
    qed
  qed
qed

lemma ceiling_rat_div:
  "0 < n \<Longrightarrow> \<lceil>(of_nat L :: rat) / of_nat n\<rceil> = int (L div n + (if L mod n = 0 then 0 else 1))"
proof -
  assume n: "0 < n"
  have "\<lceil>(of_nat L :: rat) / of_nat n\<rceil> = \<lceil>(of_int (int L) :: rat) / of_int (int n)\<rceil>"
    by simp
  also have "\<dots> = - (- int L div int n)" by (rule ceiling_divide_eq_div)
  also have "\<dots> = int (L div n + (if L mod n = 0 then 0 else 1))"
  proof -
    have nz: "int n \<noteq> 0" using n by simp
    have m: "(int L mod int n = 0) = (L mod n = 0)"
      by (metis of_nat_eq_0_iff zmod_int)
    show ?thesis
      unfolding zdiv_zminus1_eq_if [OF nz] m by (simp add: zdiv_int)
  qed
  finally show ?thesis .
qed

lemma length_chunks:
  "0 < n \<Longrightarrow> length (chunks n xs) = length xs div n + (if length xs mod n = 0 then 0 else 1)"
proof -
  assume n: "0 < n"
  have "length (chunks n xs) = length (map length (chunks n xs))" by simp
  also have "\<dots> = length xs div n + (if length xs mod n = 0 then 0 else 1)"
    by (simp add: map_length_chunks [OF n])
  finally show ?thesis .
qed

lemma chunks_eq_Nil: "0 < n \<Longrightarrow> (chunks n xs = []) = (xs = [])"
  by (cases "xs = []") (simp_all add: chunks_step)

lemma butlast_chunks_full: "0 < n \<Longrightarrow> g \<in> set (butlast (chunks n xs)) \<Longrightarrow> length g = n"
proof (induction n xs rule: chunks.induct)
  case (1 n xs)
  show ?case
  proof (cases "xs = []")
    case True
    with 1 show ?thesis by simp
  next
    case False
    note ne = this
    have st: "chunks n xs = take n xs # chunks n (drop n xs)"
      using chunks_step [OF "1.prems"(1) ne] .
    show ?thesis
    proof (cases "drop n xs = []")
      case True
      then have "chunks n xs = [take n xs]" unfolding st by simp
      with "1.prems"(2) show ?thesis by simp
    next
      case False
      then have lt: "n < length xs" by simp
      have "chunks n (drop n xs) \<noteq> []" using False chunks_eq_Nil [OF "1.prems"(1)] by blast
      then have "butlast (chunks n xs) = take n xs # butlast (chunks n (drop n xs))"
        unfolding st by simp
      with "1.prems"(2) have "g = take n xs \<or> g \<in> set (butlast (chunks n (drop n xs)))"
        by simp
      then show ?thesis
      proof
        assume "g = take n xs"
        then show ?thesis using lt by simp
      next
        assume "g \<in> set (butlast (chunks n (drop n xs)))"
        then show ?thesis using "1.IH" "1.prems"(1) ne by simp
      qed
    qed
  qed
qed

lemma partition_loop_eq:
  "0 < n \<Longrightarrow> length part < n \<Longrightarrow>
   partition_loop (int n) st part xs =
     (if n \<le> length part + length xs
      then (Yield (part @ take (n - length part) xs),
            st\<lparr>pt_iter := drop (n - length part) xs\<rparr>)
      else (if part @ xs = [] then Done else Yield (part @ xs),
            st\<lparr>pt_iter := [], pt_done := True\<rparr>))"
proof (induction xs arbitrary: part)
  case Nil
  then show ?case by auto
next
  case (Cons x xs)
  show ?case
  proof (cases "Suc (length part) = n")
    case True
    then have "n - length part = Suc 0" by simp
    with True show ?thesis by (simp add: Let_def)
  next
    case False
    then have lt: "length (part @ [x]) < n" using Cons.prems by simp
    have s: "n - length part = Suc (n - Suc (length part))" using Cons.prems by simp
    show ?thesis using False Cons.IH [OF Cons.prems(1) lt]
      by (simp add: Let_def s)
  qed
qed

lemma partition_drain_done:
  "partition_drain sz \<lparr>pt_iter = xs, pt_done = True\<rparr> = ([], \<lparr>pt_iter = xs, pt_done = True\<rparr>)"
  by (subst partition_drain.simps) (simp add: partition_next_def)

lemma partition_drain_eq:
  "0 < n \<Longrightarrow> partition_drain (int n) \<lparr>pt_iter = xs, pt_done = False\<rparr>
     = (chunks n xs, \<lparr>pt_iter = [], pt_done = True\<rparr>)"
proof (induction n xs rule: chunks.induct)
  case (1 n xs)
  show ?case
  proof (cases "xs = []")
    case True
    then show ?thesis
      by (subst partition_drain.simps) (simp add: partition_next_def)
  next
    case False
    show ?thesis
    proof (cases "n \<le> length xs")
      case True
      then show ?thesis using 1 False
        by (subst partition_drain.simps)
          (simp add: partition_next_def partition_loop_eq chunks_step)
    next
      case False
      then have "take n xs = xs" and "drop n xs = []" by simp_all
      then show ?thesis using 1 \<open>xs \<noteq> []\<close> False
        by (subst partition_drain.simps)
          (simp add: partition_next_def partition_loop_eq chunks_step partition_drain_done)
    qed
  qed
qed

lemma slice_take_drop:
  "pos \<le> length xs \<Longrightarrow> slice xs (int pos) (int pos + int n) = take n (drop pos xs)"
  by (auto simp: slice_def Let_def min_def)

lemma frontBiasedPartition_loop_eq:
  "0 < n \<Longrightarrow> pos \<le> length xs \<Longrightarrow> n dvd (length xs - pos) \<Longrightarrow>
   frontBiasedPartition_loop (int n) xs (int pos) out
     = Some (int (length xs), out @ chunks n (drop pos xs))"
proof (induction "length xs - pos" arbitrary: pos out rule: less_induct)
  case less
  show ?case
  proof (cases "pos < length xs")
    case False
    then have "pos = length xs" using less.prems by simp
    then show ?thesis by (subst frontBiasedPartition_loop.simps) simp
  next
    case True
    then have "0 < length xs - pos" by simp
    then have ge: "n \<le> length xs - pos" using less.prems(3) by (simp add: dvd_imp_le)
    then have le': "pos + n \<le> length xs" using True by arith
    have dv: "n dvd (length xs - (pos + n))"
      using less.prems(3) ge by (metis diff_diff_left dvd_minus_self)
    have sm: "length xs - (pos + n) < length xs - pos" using True less.prems(1) by simp
    have ne: "drop pos xs \<noteq> []" using True by simp
    have "frontBiasedPartition_loop (int n) xs (int pos) out
        = frontBiasedPartition_loop (int n) xs (int (pos + n))
            (out @ [slice xs (int pos) (int pos + int n)])"
      using True by (subst frontBiasedPartition_loop.simps) simp
    also have "\<dots> = Some (int (length xs),
        (out @ [slice xs (int pos) (int pos + int n)]) @ chunks n (drop (pos + n) xs))"
      by (rule less.hyps [OF sm less.prems(1) le' dv])
    also have "(out @ [slice xs (int pos) (int pos + int n)]) @ chunks n (drop (pos + n) xs)
        = out @ chunks n (drop pos xs)"
      using less.prems(1) ne
      by (simp add: slice_take_drop [OF less.prems(2)] chunks_step [of n "drop pos xs"]
          add.commute [of pos n])
    finally show ?thesis .
  qed
qed

lemma js_rem_nat: "0 < n \<Longrightarrow> js_rem (int L) (int n) = Some (int (L mod n))"
  by (cases "L = 0") (simp_all add: js_rem_def zmod_int)

lemma frontBiasedPartition_eq:
  "0 < n \<Longrightarrow> frontBiasedPartition (int n) xs
     = Some (Inr ((if length xs mod n = 0 then [] else [take (length xs mod n) xs])
                  @ chunks n (drop (length xs mod n) xs)))"
proof -
  assume n: "0 < n"
  have le: "length xs mod n \<le> length xs" by simp
  have dv: "n dvd (length xs - length xs mod n)" by simp
  have z: "n dvd (length xs - 0)" if "length xs mod n = 0" using that by auto
  show ?thesis
  proof (cases "length xs mod n = 0")
    case True
    then show ?thesis
      using frontBiasedPartition_loop_eq [OF n _ z [OF True], of "[]"]
      by (simp add: frontBiasedPartition_def js_rem_nat [OF n] positive_def)
  next
    case False
    have sl: "slice xs 0 (int (length xs mod n)) = take (length xs mod n) xs"
      using slice_take_drop [of 0 xs "length xs mod n"] by simp
    show ?thesis
      using False frontBiasedPartition_loop_eq [OF n le dv, of "[take (length xs mod n) xs]"]
      by (simp add: frontBiasedPartition_def js_rem_nat [OF n] positive_def sl)
  qed
qed

text \<open>
  C3. For upstream items \<open>xs\<close> of length \<open>L\<close> and a positive integer \<open>n\<close>, driving
  \<open>partition\<close> to exhaustion yields \<open>ceil (L / n)\<close> groups (none when \<open>L = 0\<close>); every group
  but the last has length \<open>n\<close>; no group is empty; and the groups concatenated in order
  are \<open>xs\<close>.
\<close>

theorem partition_groups:
  "0 < n \<Longrightarrow>
     int (length (fst (partition_drain (int n) (partition_init xs))))
        = \<lceil>(of_nat (length xs) :: rat) / of_nat n\<rceil>
     \<and> (length xs = 0 \<longrightarrow> fst (partition_drain (int n) (partition_init xs)) = [])
     \<and> (\<forall>g \<in> set (butlast (fst (partition_drain (int n) (partition_init xs)))). length g = n)
     \<and> (\<forall>g \<in> set (fst (partition_drain (int n) (partition_init xs))). g \<noteq> [])
     \<and> concat (fst (partition_drain (int n) (partition_init xs))) = xs"
proof -
  assume n: "0 < n"
  have e: "fst (partition_drain (int n) (partition_init xs)) = chunks n xs"
    by (simp add: partition_init_def partition_drain_eq [OF n])
  have 1: "int (length (chunks n xs)) = \<lceil>(of_nat (length xs) :: rat) / of_nat n\<rceil>"
    by (simp only: ceiling_rat_div [OF n] length_chunks [OF n])
  have 2: "length xs = 0 \<longrightarrow> chunks n xs = []" by simp
  have 3: "\<forall>g \<in> set (butlast (chunks n xs)). length g = n"
    using butlast_chunks_full [OF n] by blast
  have 4: "\<forall>g \<in> set (chunks n xs). g \<noteq> []"
    using chunks_nonempty [OF n] by blast
  have 5: "concat (chunks n xs) = xs" by (rule concat_chunks [OF n])
  show ?thesis unfolding e using 1 2 3 4 5 by (intro conjI)
qed

theorem partition_groups_witness:
  "0 < (2::nat)
   \<and> int (length (fst (partition_drain (int 2) (partition_init [1::int, 2, 3])))) = 2
   \<and> concat (fst (partition_drain (int 2) (partition_init [1::int, 2, 3]))) = [1, 2, 3]
   \<and> fst (partition_drain 2 (partition_init [1::int, 2, 3])) = [[1, 2], [3]]"
proof -
  have h: "0 < (2::nat)" by simp
  note t = partition_groups [OF h, of "[1::int, 2, 3]"]
  have c: "concat (fst (partition_drain (int 2) (partition_init [1::int, 2, 3]))) = [1, 2, 3]"
    using t by (elim conjE)
  have v: "fst (partition_drain 2 (partition_init [1::int, 2, 3])) = [[1, 2], [3]]"
    by (simp add: partition_drain.simps partition_init_def partition_next_def)
  have l: "int (length (fst (partition_drain (int 2) (partition_init [1::int, 2, 3])))) = 2"
    using v by simp
  show ?thesis using h c v l by (intro conjI)
qed

text \<open>
  C4. For upstream items \<open>xs\<close> of length \<open>L\<close> and a positive integer \<open>n\<close>,
  \<open>frontBiasedPartition\<close> returns (its loop ends and its assertion holds) a list of groups
  whose lengths are, as a multiset, those of the groups of \<open>partition\<close>; when \<open>L mod n\<close> is
  not 0 the first group has that length and all the others have length \<open>n\<close>, and when it
  is 0 all groups have length \<open>n\<close>; the groups concatenated in order are \<open>xs\<close>.
\<close>

theorem frontBiasedPartition_groups:
  "0 < n \<Longrightarrow>
     (\<exists>gs. frontBiasedPartition (int n) xs = Some (Inr gs)
       \<and> mset (map length gs)
           = mset (map length (fst (partition_drain (int n) (partition_init xs))))
       \<and> (length xs mod n \<noteq> 0 \<longrightarrow>
            gs \<noteq> [] \<and> length (hd gs) = length xs mod n \<and> (\<forall>g \<in> set (tl gs). length g = n))
       \<and> (length xs mod n = 0 \<longrightarrow> (\<forall>g \<in> set gs. length g = n))
       \<and> concat gs = xs)"
proof -
  assume n: "0 < n"
  define r where "r = length xs mod n"
  define gs where "gs = (if r = 0 then [] else [take r xs]) @ chunks n (drop r xs)"
  have e: "fst (partition_drain (int n) (partition_init xs)) = chunks n xs"
    by (simp add: partition_init_def partition_drain_eq [OF n])
  have f: "frontBiasedPartition (int n) xs = Some (Inr gs)"
    unfolding gs_def r_def by (rule frontBiasedPartition_eq [OF n])
  have rl: "r \<le> length xs" unfolding r_def by simp
  have lr: "length (drop r xs) mod n = 0" and dr: "length (drop r xs) div n = length xs div n"
    unfolding r_def using n by (simp_all add: minus_mod_eq_mult_div)
  have ml: "map length (chunks n (drop r xs)) = replicate (length xs div n) n"
    using map_length_chunks [OF n, of "drop r xs"] lr dr by simp
  have mx: "map length (chunks n xs) = replicate (length xs div n) n @ (if r = 0 then [] else [r])"
    unfolding r_def by (rule map_length_chunks [OF n])
  have all_n: "\<forall>g \<in> set (chunks n (drop r xs)). length g = n"
  proof
    fix g assume "g \<in> set (chunks n (drop r xs))"
    then have "length g \<in> set (map length (chunks n (drop r xs)))" by simp
    then show "length g = n" unfolding ml by simp
  qed
  have g1: "map length gs = (if r = 0 then [] else [r]) @ replicate (length xs div n) n"
    unfolding gs_def using rl by (simp add: ml)
  have m: "mset (map length gs) = mset (map length (chunks n xs))"
    unfolding g1 mx by simp
  have c: "concat gs = xs"
    unfolding gs_def by (simp add: concat_chunks [OF n])
  have h: "r \<noteq> 0 \<longrightarrow> gs \<noteq> [] \<and> length (hd gs) = r \<and> (\<forall>g \<in> set (tl gs). length g = n)"
  proof
    assume "r \<noteq> 0"
    then have gs: "gs = take r xs # chunks n (drop r xs)" unfolding gs_def by simp
    have lt: "length (take r xs) = r" using rl by simp
    show "gs \<noteq> [] \<and> length (hd gs) = r \<and> (\<forall>g \<in> set (tl gs). length g = n)"
      unfolding gs list.sel using lt all_n by blast
  qed
  have z: "r = 0 \<longrightarrow> (\<forall>g \<in> set gs. length g = n)"
    unfolding gs_def using all_n by simp
  have "frontBiasedPartition (int n) xs = Some (Inr gs)
       \<and> mset (map length gs)
           = mset (map length (fst (partition_drain (int n) (partition_init xs))))
       \<and> (r \<noteq> 0 \<longrightarrow> gs \<noteq> [] \<and> length (hd gs) = r \<and> (\<forall>g \<in> set (tl gs). length g = n))
       \<and> (r = 0 \<longrightarrow> (\<forall>g \<in> set gs. length g = n))
       \<and> concat gs = xs"
    unfolding e using f m h z c by (intro conjI)
  then show ?thesis unfolding r_def by (rule exI)
qed

theorem frontBiasedPartition_groups_witness:
  "0 < (2::nat)
   \<and> (\<exists>gs. frontBiasedPartition (int 2) [1::int, 2, 3] = Some (Inr gs) \<and> concat gs = [1, 2, 3])
   \<and> frontBiasedPartition 2 [1::int, 2, 3] = Some (Inr [[1], [2, 3]])"
proof -
  have h: "0 < (2::nat)" by simp
  have e: "\<exists>gs. frontBiasedPartition (int 2) [1::int, 2, 3] = Some (Inr gs) \<and> concat gs = [1, 2, 3]"
    using frontBiasedPartition_groups [OF h, of "[1::int, 2, 3]"] by blast
  have v: "frontBiasedPartition 2 [1::int, 2, 3] = Some (Inr [[1], [2, 3]])"
    by (simp add: frontBiasedPartition_def js_rem_def positive_def slice_def
        frontBiasedPartition_loop.simps)
  show ?thesis using h e v by (intro conjI)
qed

subsection \<open>insertOrdered\<close>

lemma insertion_index_iff:
  "insertion_index cmp xs v i =
     (i \<le> length xs \<and> (\<forall>j<i. cmp (xs ! j) v \<noteq> Greater)
      \<and> (\<forall>j. i \<le> j \<and> j < length xs \<longrightarrow> cmp v (xs ! j) \<noteq> Greater))"
proof (cases "i \<le> length xs")
  case False
  then show ?thesis by (simp add: insertion_index_def)
next
  case True
  have t: "list_all (\<lambda>x. cmp x v \<noteq> Greater) (take i xs) = (\<forall>j<i. cmp (xs ! j) v \<noteq> Greater)"
    using True by (simp add: list_all_length)
  have d: "list_all (\<lambda>x. cmp v x \<noteq> Greater) (drop i xs)
      = (\<forall>j. i \<le> j \<and> j < length xs \<longrightarrow> cmp v (xs ! j) \<noteq> Greater)"
  proof
    assume a: "list_all (\<lambda>x. cmp v x \<noteq> Greater) (drop i xs)"
    show "\<forall>j. i \<le> j \<and> j < length xs \<longrightarrow> cmp v (xs ! j) \<noteq> Greater"
    proof (intro allI impI)
      fix j assume j: "i \<le> j \<and> j < length xs"
      then have "j - i < length (drop i xs)" by auto
      with a have "cmp v (drop i xs ! (j - i)) \<noteq> Greater" by (simp add: list_all_length)
      then show "cmp v (xs ! j) \<noteq> Greater" using j True by simp
    qed
  next
    assume a: "\<forall>j. i \<le> j \<and> j < length xs \<longrightarrow> cmp v (xs ! j) \<noteq> Greater"
    show "list_all (\<lambda>x. cmp v x \<noteq> Greater) (drop i xs)"
      unfolding list_all_length
    proof (intro allI impI)
      fix k assume "k < length (drop i xs)"
      then have "i \<le> i + k \<and> i + k < length xs" by auto
      with a have "cmp v (xs ! (i + k)) \<noteq> Greater" by blast
      then show "cmp v (drop i xs ! k) \<noteq> Greater" using True by simp
    qed
  qed
  show ?thesis unfolding insertion_index_def t d using True by simp
qed

lemma leftmost_index_unique:
  "leftmost_index cmp xs v i \<Longrightarrow> leftmost_index cmp xs v j \<Longrightarrow> i = j"
proof (rule ccontr)
  assume i: "leftmost_index cmp xs v i" and j: "leftmost_index cmp xs v j" and ne: "i \<noteq> j"
  then consider "i < j" | "j < i" by linarith
  then show False
  proof cases
    case 1
    then have "\<not> insertion_index cmp xs v i" using j by (simp add: leftmost_index_def list_all_iff)
    then show False using i by (simp add: leftmost_index_def)
  next
    case 2
    then have "\<not> insertion_index cmp xs v j" using i by (simp add: leftmost_index_def list_all_iff)
    then show False using j by (simp add: leftmost_index_def)
  qed
qed

lemma rightmost_index_unique:
  "rightmost_index cmp xs v i \<Longrightarrow> rightmost_index cmp xs v j \<Longrightarrow> i = j"
proof (rule ccontr)
  assume i: "rightmost_index cmp xs v i" and j: "rightmost_index cmp xs v j" and ne: "i \<noteq> j"
  have li: "i \<le> length xs" and lj: "j \<le> length xs"
    using i j by (simp_all add: rightmost_index_def insertion_index_def)
  have ai: "\<forall>k \<in> {Suc i..<Suc (length xs)}. \<not> insertion_index cmp xs v k"
    using i unfolding rightmost_index_def list_all_iff set_upt by blast
  have aj: "\<forall>k \<in> {Suc j..<Suc (length xs)}. \<not> insertion_index cmp xs v k"
    using j unfolding rightmost_index_def list_all_iff set_upt by blast
  from ne consider "i < j" | "j < i" by linarith
  then show False
  proof cases
    case 1
    then have "j \<in> {Suc i..<Suc (length xs)}" using lj by simp
    then have "\<not> insertion_index cmp xs v j" using ai by blast
    then show False using j by (simp add: rightmost_index_def)
  next
    case 2
    then have "i \<in> {Suc j..<Suc (length xs)}" using li by simp
    then have "\<not> insertion_index cmp xs v i" using aj by blast
    then show False using i by (simp add: rightmost_index_def)
  qed
qed

lemma index_number:
  "isInteger r \<Longrightarrow> num_ge r (Num 0) \<Longrightarrow> r = Num (of_nat (to_index r))"
proof (cases r)
  case (Num q)
  assume "isInteger r" and "num_ge r (Num 0)"
  then have i: "of_int \<lfloor>q\<rfloor> = q" and nn: "0 \<le> q" using Num by (simp_all add: not_less)
  have "q = of_nat (nat \<lfloor>q\<rfloor>)" using i nn by (metis of_nat_nat zero_le_floor)
  then show ?thesis using Num by simp
qed simp_all

lemma insert_arr_at:
  "i \<le> length a \<Longrightarrow> insert_arr a v (Num (of_nat i)) = Inr (take i a @ Item v # drop i a)"
  by (simp add: insert_arr_def num_gt_def length_num_def splice_def not_less)

lemma elems_insert: "elems (take i a @ Item v # drop i a) = take i (elems a) @ v # drop i (elems a)"
  by (simp add: elems_def take_map drop_map)

lemma sorted_by_insert:
  assumes s: "sorted_by cmp xs" and i: "insertion_index cmp xs v i"
  shows "sorted_by cmp (take i xs @ v # drop i xs)"
proof -
  have "sorted_wrt (\<lambda>x y. cmp x y \<noteq> Greater) (take i xs @ drop i xs)"
    using s by (simp add: sorted_by_def)
  then have t: "sorted_wrt (\<lambda>x y. cmp x y \<noteq> Greater) (take i xs)"
    and d: "sorted_wrt (\<lambda>x y. cmp x y \<noteq> Greater) (drop i xs)"
    and x: "\<forall>x \<in> set (take i xs). \<forall>y \<in> set (drop i xs). cmp x y \<noteq> Greater"
    unfolding sorted_wrt_append by blast+
  have b: "\<forall>x \<in> set (take i xs). cmp x v \<noteq> Greater"
    and c: "\<forall>y \<in> set (drop i xs). cmp v y \<noteq> Greater"
    using i by (simp_all add: insertion_index_def list_all_iff)
  show ?thesis
    unfolding sorted_by_def sorted_wrt_append sorted_wrt.simps using t d x b c by simp
qed

lemma insertOrdered_at_index:
  assumes "isInteger r" and "num_ge r (Num 0)" and "to_index r \<le> length a"
  shows "insert_arr a v r = Inr (take (to_index r) a @ Item v # drop (to_index r) a)"
  using insert_arr_at [OF assms(3), of v] index_number [OF assms(1,2)] by simp

text \<open>
  C1. For every array whose elements are sorted by \<open>cmp\<close> and every value \<open>v\<close>, when
  \<^verbatim>\<open>bisectLow\<close> and \<^verbatim>\<open>bisectHigh\<close> return the leftmost and the rightmost valid insertion
  index for \<open>v\<close>, \<open>insertOrdered\<close> raises nothing, and the array after it is one element
  longer and still sorted by \<open>cmp\<close>, for either duplicate policy and for the policy left
  out. (The proof does not use that \<open>cmp\<close> is a total order.)
\<close>

theorem insertOrdered_sorted:
  assumes s: "sorted_by cmp (elems a)"
    and lo: "bisectLow_contract bisectLow cmp a v"
    and hi: "bisectHigh_contract bisectHigh cmp a v"
  shows "\<exists>a'. insertOrdered bisectLow bisectHigh a v cmp duplicates = Inr a'
           \<and> sorted_by cmp (elems a') \<and> length a' = Suc (length a)"
proof -
  define r where "r = (if (case duplicates of None \<Rightarrow> High | Some d \<Rightarrow> d) = Low
                       then bisectLow else bisectHigh) cmp a v"
  have c: "isInteger r \<and> num_ge r (Num 0) \<and> insertion_index cmp (elems a) v (to_index r)"
    unfolding r_def using lo hi
    by (simp add: bisectLow_contract_def bisectHigh_contract_def leftmost_index_def
        rightmost_index_def)
  then have le: "to_index r \<le> length a" by (simp add: insertion_index_def elems_def)
  have e: "insertOrdered bisectLow bisectHigh a v cmp duplicates
      = Inr (take (to_index r) a @ Item v # drop (to_index r) a)"
    unfolding insertOrdered_def Let_def r_def [symmetric]
    using c le by (simp add: insertOrdered_at_index)
  have so: "sorted_by cmp (elems (take (to_index r) a @ Item v # drop (to_index r) a))"
    unfolding elems_insert using s c by (simp add: sorted_by_insert)
  have ln: "length (take (to_index r) a @ Item v # drop (to_index r) a) = Suc (length a)"
    using le by simp
  show ?thesis using e so ln by blast
qed

theorem insertOrdered_sorted_witness:
  "\<exists>a'. insertOrdered scan_bisectLow scan_bisectHigh
      [Item (Val (1::int, ''a'')), Item (Val (3, ''b'')), Item (Val (5, ''c'')), Item (Val (7, ''d'')),
       Item (Val (9, ''e''))]
      (Val (6, ''new'')) key_ascending None = Inr a'
     \<and> sorted_by key_ascending (elems a')
     \<and> length a' = Suc (length
      [Item (Val (1::int, ''a'')), Item (Val (3, ''b'')), Item (Val (5, ''c'')), Item (Val (7, ''d'')),
       Item (Val (9, ''e''))])"
proof -
  have s: "sorted_by key_ascending (elems
      [Item (Val (1::int, ''a'')), Item (Val (3, ''b'')), Item (Val (5, ''c'')), Item (Val (7, ''d'')),
       Item (Val (9, ''e''))])"
    by (simp add: sorted_by_def elems_def)
  have lo: "bisectLow_contract scan_bisectLow key_ascending
      [Item (Val (1::int, ''a'')), Item (Val (3, ''b'')), Item (Val (5, ''c'')), Item (Val (7, ''d'')),
       Item (Val (9, ''e''))]
      (Val (6, ''new''))"
    by code_simp
  have hi: "bisectHigh_contract scan_bisectHigh key_ascending
      [Item (Val (1::int, ''a'')), Item (Val (3, ''b'')), Item (Val (5, ''c'')), Item (Val (7, ''d'')),
       Item (Val (9, ''e''))]
      (Val (6, ''new''))"
    by code_simp
  show ?thesis by (rule insertOrdered_sorted [OF s lo hi])
qed

lemma total_order_on_conv:
  assumes "total_order_on cmp ys" and "x \<in> set ys" and "y \<in> set ys"
  shows "(cmp x y = Less) = (cmp y x = Greater)" and "(cmp x y = Equal) = (cmp y x = Equal)"
  using assms unfolding total_order_on_def list_all_iff by blast+

lemma total_order_on_trans:
  assumes "total_order_on cmp ys" and "x \<in> set ys" and "y \<in> set ys" and "z \<in> set ys"
    and "cmp x y \<noteq> Greater" and "cmp y z \<noteq> Greater"
  shows "cmp x z \<noteq> Greater"
  using assms unfolding total_order_on_def list_all_iff by blast

lemma sorted_by_nth:
  "sorted_by cmp xs \<Longrightarrow> i < j \<Longrightarrow> j < length xs \<Longrightarrow> cmp (xs ! i) (xs ! j) \<noteq> Greater"
  by (simp add: sorted_by_def sorted_wrt_iff_nth_less)

lemma first_equal_leftmost:
  assumes t: "total_order_on cmp (v # xs)" and s: "sorted_by cmp xs"
    and f: "first_equal cmp xs v f"
  shows "leftmost_index cmp xs v f"
proof -
  from f have fl: "f < length xs" and fe: "cmp (xs ! f) v = Equal"
    and fn: "\<forall>j<f. cmp (xs ! j) v \<noteq> Equal"
    by (simp_all add: first_equal_def list_all_length)
  have mv: "v \<in> set (v # xs)" by simp
  have mx: "xs ! j \<in> set (v # xs)" if "j < length xs" for j using that by simp
  have ve: "cmp v (xs ! f) = Equal"
    using total_order_on_conv(2) [OF t mx [OF fl] mv] fe by simp
  have before: "cmp (xs ! j) v \<noteq> Greater" if "j < f" for j
  proof -
    have jl: "j < length xs" using that fl by simp
    have "cmp (xs ! j) (xs ! f) \<noteq> Greater" by (rule sorted_by_nth [OF s that fl])
    moreover have "cmp (xs ! f) v \<noteq> Greater" using fe by simp
    ultimately show ?thesis by (rule total_order_on_trans [OF t mx [OF jl] mx [OF fl] mv])
  qed
  have after: "cmp v (xs ! j) \<noteq> Greater" if "f \<le> j" and "j < length xs" for j
  proof (cases "j = f")
    case True
    then show ?thesis using ve by simp
  next
    case False
    then have "f < j" using that(1) by simp
    then have "cmp (xs ! f) (xs ! j) \<noteq> Greater" by (rule sorted_by_nth [OF s _ that(2)])
    moreover have "cmp v (xs ! f) \<noteq> Greater" using ve by simp
    ultimately show ?thesis
      using total_order_on_trans [OF t mv mx [OF fl] mx [OF that(2)]] by blast
  qed
  have ins: "insertion_index cmp xs v f"
    unfolding insertion_index_iff using fl before after by simp
  have no: "\<not> insertion_index cmp xs v j" if "j < f" for j
  proof
    assume "insertion_index cmp xs v j"
    moreover have jl: "j < length xs" using that fl by simp
    ultimately have "cmp v (xs ! j) \<noteq> Greater" unfolding insertion_index_iff by blast
    then have "cmp (xs ! j) v \<noteq> Less"
      using total_order_on_conv(1) [OF t mx [OF jl] mv] by simp
    moreover have "cmp (xs ! j) v \<noteq> Greater" by (rule before [OF that])
    moreover have "cmp (xs ! j) v \<noteq> Equal" using fn that by blast
    ultimately show False by (cases "cmp (xs ! j) v") simp_all
  qed
  show ?thesis unfolding leftmost_index_def list_all_iff using ins no by simp
qed

lemma last_equal_rightmost:
  assumes t: "total_order_on cmp (v # xs)" and s: "sorted_by cmp xs"
    and l: "last_equal cmp xs v l"
  shows "rightmost_index cmp xs v (Suc l)"
proof -
  from l have ll: "l < length xs" and le: "cmp (xs ! l) v = Equal"
    and ln: "\<forall>k<length xs - Suc l. cmp (xs ! (Suc l + k)) v \<noteq> Equal"
    by (simp_all add: last_equal_def list_all_length)
  have mv: "v \<in> set (v # xs)" by simp
  have mx: "xs ! j \<in> set (v # xs)" if "j < length xs" for j using that by simp
  have ve: "cmp v (xs ! l) = Equal"
    using total_order_on_conv(2) [OF t mx [OF ll] mv] le by simp
  have before: "cmp (xs ! j) v \<noteq> Greater" if "j < Suc l" for j
  proof (cases "j = l")
    case True
    then show ?thesis using le by simp
  next
    case False
    then have jl: "j < l" using that by simp
    then have "cmp (xs ! j) (xs ! l) \<noteq> Greater" by (rule sorted_by_nth [OF s _ ll])
    moreover have "cmp (xs ! l) v \<noteq> Greater" using le by simp
    moreover have "j < length xs" using jl ll by simp
    ultimately show ?thesis
      using total_order_on_trans [OF t mx mx [OF ll] mv] by blast
  qed
  have after: "cmp v (xs ! j) \<noteq> Greater" if "Suc l \<le> j" and "j < length xs" for j
  proof -
    have "l < j" using that(1) by simp
    then have "cmp (xs ! l) (xs ! j) \<noteq> Greater" by (rule sorted_by_nth [OF s _ that(2)])
    moreover have "cmp v (xs ! l) \<noteq> Greater" using ve by simp
    ultimately show ?thesis
      using total_order_on_trans [OF t mv mx [OF ll] mx [OF that(2)]] by blast
  qed
  have ins: "insertion_index cmp xs v (Suc l)"
    unfolding insertion_index_iff using ll before after by simp
  have no: "\<not> insertion_index cmp xs v j" if "Suc (Suc l) \<le> j" and "j \<le> length xs" for j
  proof
    assume "insertion_index cmp xs v j"
    moreover have sl: "Suc l < j" using that(1) by simp
    ultimately have g: "cmp (xs ! Suc l) v \<noteq> Greater" unfolding insertion_index_iff by blast
    have sll: "Suc l < length xs" using sl that(2) by simp
    have "cmp v (xs ! Suc l) \<noteq> Greater" by (rule after [OF _ sll]) simp
    then have "cmp (xs ! Suc l) v \<noteq> Less"
      using total_order_on_conv(1) [OF t mx [OF sll] mv] by simp
    moreover have "cmp (xs ! Suc l) v \<noteq> Equal" using ln [rule_format, of 0] sll by simp
    ultimately show False using g by (cases "cmp (xs ! Suc l) v") simp_all
  qed
  show ?thesis unfolding rightmost_index_def list_all_iff set_upt using ins no by simp
qed

text \<open>
  C2. For every array sorted by the total order \<open>cmp\<close> in which \<open>f\<close> is the position of the
  first and \<open>l\<close> the position of the last element equal to \<open>v\<close>, when \<^verbatim>\<open>bisectLow\<close> and
  \<^verbatim>\<open>bisectHigh\<close> return the leftmost and the rightmost valid insertion index:
  \<open>insertOrdered\<close> with \<^verbatim>\<open>"low"\<close> puts \<open>v\<close> at position \<open>f\<close>, moving the equal elements one
  to the right; with \<^verbatim>\<open>"high"\<close> it puts \<open>v\<close> right after position \<open>l\<close>; and with the
  policy left out it does what it does with \<^verbatim>\<open>"high"\<close>.
\<close>

theorem insertOrdered_duplicates:
  assumes t: "total_order_on cmp (v # elems a)" and s: "sorted_by cmp (elems a)"
    and f: "first_equal cmp (elems a) v f" and l: "last_equal cmp (elems a) v l"
    and lo: "bisectLow_contract bisectLow cmp a v"
    and hi: "bisectHigh_contract bisectHigh cmp a v"
  shows "insertOrdered bisectLow bisectHigh a v cmp (Some Low)
           = Inr (take f a @ Item v # drop f a)
         \<and> insertOrdered bisectLow bisectHigh a v cmp (Some High)
           = Inr (take (Suc l) a @ Item v # drop (Suc l) a)
         \<and> insertOrdered bisectLow bisectHigh a v cmp None
           = insertOrdered bisectLow bisectHigh a v cmp (Some High)"
proof -
  have il: "to_index (bisectLow cmp a v) = f"
    using lo first_equal_leftmost [OF t s f]
    by (auto simp: bisectLow_contract_def intro: leftmost_index_unique)
  have ih: "to_index (bisectHigh cmp a v) = Suc l"
    using hi last_equal_rightmost [OF t s l]
    by (auto simp: bisectHigh_contract_def intro: rightmost_index_unique)
  have fl: "f \<le> length a" using f by (simp add: first_equal_def elems_def)
  have ll: "Suc l \<le> length a" using l by (simp add: last_equal_def elems_def)
  have 1: "insertOrdered bisectLow bisectHigh a v cmp (Some Low)
      = Inr (take f a @ Item v # drop f a)"
    using lo fl insertOrdered_at_index [of "bisectLow cmp a v" a v]
    by (simp add: insertOrdered_def bisectLow_contract_def il)
  have 2: "insertOrdered bisectLow bisectHigh a v cmp (Some High)
      = Inr (take (Suc l) a @ Item v # drop (Suc l) a)"
    using hi ll insertOrdered_at_index [of "bisectHigh cmp a v" a v]
    by (simp add: insertOrdered_def bisectHigh_contract_def ih)
  have 3: "insertOrdered bisectLow bisectHigh a v cmp None
      = insertOrdered bisectLow bisectHigh a v cmp (Some High)"
    by (simp add: insertOrdered_def)
  show ?thesis using 1 2 3 by (intro conjI)
qed

theorem insertOrdered_duplicates_witness:
  "insertOrdered scan_bisectLow scan_bisectHigh
      [Item (Val (1::int, ''a'')), Item (Val (2, ''b'')), Item (Val (2, ''c'')), Item (Val (3, ''d''))]
      (Val (2, ''new'')) key_ascending (Some Low)
     = Inr [Item (Val (1, ''a'')), Item (Val (2, ''new'')), Item (Val (2, ''b'')),
            Item (Val (2, ''c'')), Item (Val (3, ''d''))]
   \<and> insertOrdered scan_bisectLow scan_bisectHigh
      [Item (Val (1::int, ''a'')), Item (Val (2, ''b'')), Item (Val (2, ''c'')), Item (Val (3, ''d''))]
      (Val (2, ''new'')) key_ascending (Some High)
     = Inr [Item (Val (1, ''a'')), Item (Val (2, ''b'')), Item (Val (2, ''c'')),
            Item (Val (2, ''new'')), Item (Val (3, ''d''))]
   \<and> insertOrdered scan_bisectLow scan_bisectHigh
      [Item (Val (1::int, ''a'')), Item (Val (2, ''b'')), Item (Val (2, ''c'')), Item (Val (3, ''d''))]
      (Val (2, ''new'')) key_ascending None
     = Inr [Item (Val (1, ''a'')), Item (Val (2, ''b'')), Item (Val (2, ''c'')),
            Item (Val (2, ''new'')), Item (Val (3, ''d''))]"
proof -
  have t: "total_order_on key_ascending (Val (2, ''new'') # elems
      [Item (Val (1::int, ''a'')), Item (Val (2, ''b'')), Item (Val (2, ''c'')), Item (Val (3, ''d''))])"
    by (simp add: total_order_on_def elems_def)
  have s: "sorted_by key_ascending (elems
      [Item (Val (1::int, ''a'')), Item (Val (2, ''b'')), Item (Val (2, ''c'')), Item (Val (3, ''d''))])"
    by (simp add: sorted_by_def elems_def)
  have f: "first_equal key_ascending (elems
      [Item (Val (1::int, ''a'')), Item (Val (2, ''b'')), Item (Val (2, ''c'')), Item (Val (3, ''d''))])
      (Val (2, ''new'')) 1"
    by (simp add: first_equal_def elems_def)
  have l: "last_equal key_ascending (elems
      [Item (Val (1::int, ''a'')), Item (Val (2, ''b'')), Item (Val (2, ''c'')), Item (Val (3, ''d''))])
      (Val (2, ''new'')) 2"
    by (simp add: last_equal_def elems_def)
  have lo: "bisectLow_contract scan_bisectLow key_ascending
      [Item (Val (1::int, ''a'')), Item (Val (2, ''b'')), Item (Val (2, ''c'')), Item (Val (3, ''d''))]
      (Val (2, ''new''))"
    by (simp add: bisectLow_contract_def scan_bisectLow_def leftmost_index_def
        insertion_index_def elems_def)
  have hi: "bisectHigh_contract scan_bisectHigh key_ascending
      [Item (Val (1::int, ''a'')), Item (Val (2, ''b'')), Item (Val (2, ''c'')), Item (Val (3, ''d''))]
      (Val (2, ''new''))"
    by (simp add: bisectHigh_contract_def scan_bisectHigh_def rightmost_index_def
        insertion_index_def elems_def)
  show ?thesis using insertOrdered_duplicates [OF t s f l lo hi] by simp
qed

end
